theory Spec2Isabelle
  imports Complex_Main "HOL-Library.Word"
begin

section \<open>Python values\<close>

text \<open>
  The middleware handles values of type \<^verbatim>\<open>Any\<close>: the result of a run and the entries of
  \<^verbatim>\<open>context.metadata\<close>. \<open>pyval\<close> covers the kinds of value that the code tells apart:
  \<^verbatim>\<open>None\<close>, booleans, integers (unbounded, as in Python), floats, strings, lists and
  dictionaries. A finite float is represented by the rational number it denotes;
  rounding to the nearest double is not modelled, and neither are \<^verbatim>\<open>inf\<close> and \<^verbatim>\<open>nan\<close>.
  Objects of other classes, whose special methods can do anything, are not modelled:
  what is proved of a metadata entry is proved of these seven kinds.
\<close>

datatype pyval =
    PNone
  | PBool bool
  | PInt int
  | PFloat rat
  | PStr string
  | PList "pyval list"
  | PDict "(string \<times> pyval) list"

datatype error = TypeError | OverflowError | ZeroDivisionError

type_synonym pydict = "string \<rightharpoonup> pyval"

text \<open>Truth value testing, as done by \<^verbatim>\<open>if start_ns\<close>.\<close>

fun truthy :: "pyval \<Rightarrow> bool" where
  "truthy PNone = False"
| "truthy (PBool b) = b"
| "truthy (PInt i) = (i \<noteq> 0)"
| "truthy (PFloat f) = (f \<noteq> 0)"
| "truthy (PStr s) = (s \<noteq> [])"
| "truthy (PList xs) = (xs \<noteq> [])"
| "truthy (PDict kvs) = (kvs \<noteq> [])"

text \<open>
  A Python integer converts to a float only if it rounds to a finite double: the
  largest double is \<open>2 ^ 1024 - 2 ^ 971\<close>, and everything from the midpoint
  \<open>2 ^ 1024 - 2 ^ 970\<close> on rounds out of range and raises \<^verbatim>\<open>OverflowError\<close>.
\<close>

definition float_limit :: int where
  "float_limit = 2 ^ 1024 - 2 ^ 970"

text \<open>\<^verbatim>\<open>n - v\<close> for an integer \<open>n\<close> on the left.\<close>

fun int_sub :: "int \<Rightarrow> pyval \<Rightarrow> error + pyval" where
  "int_sub n (PInt s) = Inr (PInt (n - s))"
| "int_sub n (PBool b) = Inr (PInt (n - (if b then 1 else 0)))"
| "int_sub n (PFloat f) =
     (if float_limit \<le> \<bar>n\<bar> then Inl OverflowError else Inr (PFloat (of_int n - f)))"
| "int_sub n PNone = Inl TypeError"
| "int_sub n (PStr s) = Inl TypeError"
| "int_sub n (PList xs) = Inl TypeError"
| "int_sub n (PDict kvs) = Inl TypeError"

text \<open>\<^verbatim>\<open>v / k\<close> (true division) for an integer \<open>k\<close> on the right.\<close>

definition int_true_div :: "int \<Rightarrow> int \<Rightarrow> error + pyval" where
  "int_true_div d k =
     (if k = 0 then Inl ZeroDivisionError
      else if \<bar>k\<bar> * float_limit \<le> \<bar>d\<bar> then Inl OverflowError
      else Inr (PFloat (of_int d / of_int k)))"

fun true_div :: "pyval \<Rightarrow> int \<Rightarrow> error + pyval" where
  "true_div (PInt d) k = int_true_div d k"
| "true_div (PBool b) k = int_true_div (if b then 1 else 0) k"
| "true_div (PFloat f) k =
     (if float_limit \<le> \<bar>k\<bar> then Inl OverflowError
      else if k = 0 then Inl ZeroDivisionError
      else Inr (PFloat (f / of_int k)))"
| "true_div PNone k = Inl TypeError"
| "true_div (PStr s) k = Inl TypeError"
| "true_div (PList xs) k = Inl TypeError"
| "true_div (PDict kvs) k = Inl TypeError"

text \<open>\<^verbatim>\<open>d.get(k)\<close>: the value stored under \<open>k\<close>, or \<^verbatim>\<open>None\<close>.\<close>

definition dict_get :: "pydict \<Rightarrow> string \<Rightarrow> pyval" where
  "dict_get d k = (case d k of None \<Rightarrow> PNone | Some v \<Rightarrow> v)"

text \<open>\<^verbatim>\<open>d.pop(k, default)\<close>: the value and the dictionary without the key.\<close>

definition dict_pop :: "pydict \<Rightarrow> string \<Rightarrow> pyval \<Rightarrow> pyval \<times> pydict" where
  "dict_pop d k dflt = (case d k of None \<Rightarrow> (dflt, d) | Some v \<Rightarrow> (v, d(k := None)))"

section \<open>The invocation context\<close>

text \<open>
  \<^verbatim>\<open>MiddlewareContext\<close> belongs to the agent framework; its fields are those of the
  stand-in \<^verbatim>\<open>FakeMiddlewareContext\<close> of \<^verbatim>\<open>tests/test_lineage_middleware.py\<close>. The context
  is a mutable object owned by the caller: the hooks receive it and the model returns
  it updated.
\<close>

record MiddlewareContext =
  agent_name :: string
  prompt :: pyval
  "method" :: string
  deps :: pyval
  kwargs :: pydict
  metadata :: pydict
  context_ :: pyval

definition FakeMiddlewareContext :: "string \<Rightarrow> MiddlewareContext" where
  "FakeMiddlewareContext name =
     \<lparr>agent_name = name, prompt = PNone, method = ''run'', deps = PNone,
      kwargs = Map.empty, metadata = Map.empty, context_ = PNone\<rparr>"

definition fake_context :: MiddlewareContext where
  "fake_context = FakeMiddlewareContext ''test-agent''"

section \<open>The object store\<close>

text \<open>
  The log is a Python list of references to dictionaries, and \<^verbatim>\<open>records\<close> hands out
  another list holding the same references. Lists and dictionaries therefore live in
  a store, at addresses; \<open>next_addr\<close> is the address of the next object created.
\<close>

type_synonym addr = nat

record heap =
  dict_objs :: "addr \<rightharpoonup> pydict"
  list_objs :: "addr \<rightharpoonup> addr list"
  next_addr :: addr

definition empty_heap :: heap where
  "empty_heap = \<lparr>dict_objs = Map.empty, list_objs = Map.empty, next_addr = 0\<rparr>"

text \<open>
  Reading an address. A Python reference always denotes a live object, so the
  defaults below are never reached from a well-formed store (\<open>heap_ok\<close>, \<open>owns\<close>).
\<close>

definition list_at :: "heap \<Rightarrow> addr \<Rightarrow> addr list" where
  "list_at h a = (case list_objs h a of None \<Rightarrow> [] | Some xs \<Rightarrow> xs)"

definition dict_at :: "heap \<Rightarrow> addr \<Rightarrow> pydict" where
  "dict_at h a = (case dict_objs h a of None \<Rightarrow> Map.empty | Some d \<Rightarrow> d)"

definition alloc_dict :: "pydict \<Rightarrow> heap \<Rightarrow> addr \<times> heap" where
  "alloc_dict d h =
     (next_addr h, h\<lparr>dict_objs := (dict_objs h)(next_addr h \<mapsto> d), next_addr := Suc (next_addr h)\<rparr>)"

definition alloc_list :: "addr list \<Rightarrow> heap \<Rightarrow> addr \<times> heap" where
  "alloc_list xs h =
     (next_addr h, h\<lparr>list_objs := (list_objs h)(next_addr h \<mapsto> xs), next_addr := Suc (next_addr h)\<rparr>)"

text \<open>\<^verbatim>\<open>l.append(x)\<close> on the list at address \<open>l\<close>.\<close>

definition list_append :: "addr \<Rightarrow> addr \<Rightarrow> heap \<Rightarrow> heap" where
  "list_append l x h = h\<lparr>list_objs := (list_objs h)(l \<mapsto> list_at h l @ [x])\<rparr>"

text \<open>What a reader of the list at address \<open>l\<close> sees: its dictionaries, in order.\<close>

definition view :: "heap \<Rightarrow> addr \<Rightarrow> pydict list" where
  "view h l = map (dict_at h) (list_at h l)"

text \<open>
  A store is well formed when every object and every reference held in a list lies
  below \<open>next_addr\<close>.
\<close>

definition heap_ok :: "heap \<Rightarrow> bool" where
  "heap_ok h =
     ((\<forall>l xs. list_objs h l = Some xs \<longrightarrow> l < next_addr h \<and> (\<forall>x \<in> set xs. x < next_addr h)) \<and>
      (\<forall>a d. dict_objs h a = Some d \<longrightarrow> a < next_addr h))"

section \<open>DataLineageMiddleware\<close>

text \<open>The object has one attribute, \<^verbatim>\<open>_records\<close>: a reference to the list of records.\<close>

record DataLineageMiddleware =
  records_attr :: addr

text \<open>\<^verbatim>\<open>__init__\<close>: \<^verbatim>\<open>self._records = []\<close>.\<close>

definition init :: "heap \<Rightarrow> DataLineageMiddleware \<times> heap" where
  "init h = (let (l, h') = alloc_list [] h in (\<lparr>records_attr = l\<rparr>, h'))"

definition owns :: "DataLineageMiddleware \<Rightarrow> heap \<Rightarrow> bool" where
  "owns self h = (list_objs h (records_attr self) \<noteq> None)"

text \<open>The property \<^verbatim>\<open>records\<close>: \<^verbatim>\<open>return list(self._records)\<close>, a new list object.\<close>

definition records :: "DataLineageMiddleware \<Rightarrow> heap \<Rightarrow> addr \<times> heap" where
  "records self h = alloc_list (list_at h (records_attr self)) h"

text \<open>The log as its readers see it.\<close>

definition log_of :: "DataLineageMiddleware \<Rightarrow> heap \<Rightarrow> pydict list" where
  "log_of self h = view h (records_attr self)"

text \<open>The value of the expression \<^verbatim>\<open>middleware.records\<close>: the dictionaries of the new list.\<close>

definition records_view :: "DataLineageMiddleware \<Rightarrow> heap \<Rightarrow> pydict list" where
  "records_view self h = (let (s, h') = records self h in view h' s)"

text \<open>
  \<^verbatim>\<open>before_run\<close>. The two values the environment supplies are arguments:
  \<open>lineage_id\<close> is \<^verbatim>\<open>uuid.uuid4().hex\<close> and \<open>now\<close> is \<^verbatim>\<open>time.monotonic_ns()\<close>, a signed
  64-bit count of nanoseconds. The three assignments to string keys of a dictionary
  cannot raise, and the function returns \<^verbatim>\<open>None\<close>: the model returns the context.
\<close>

definition before_run :: "MiddlewareContext \<Rightarrow> string \<Rightarrow> 64 word \<Rightarrow> MiddlewareContext" where
  "before_run ctx lineage_id now =
     ctx\<lparr>metadata := (metadata ctx)
        (''lineage_id'' \<mapsto> PStr lineage_id,
         ''lineage_agent'' \<mapsto> PStr (agent_name ctx),
         ''lineage_start_ns'' \<mapsto> PInt (sint now))\<rparr>"

text \<open>
  \<^verbatim>\<open>(time.monotonic_ns() - start_ns) / 1_000_000 if start_ns else None\<close>: the condition
  is the truth value of \<open>start_ns\<close>, and both operators can raise.
\<close>

definition elapsed_ms_of :: "pyval \<Rightarrow> int \<Rightarrow> error + pyval" where
  "elapsed_ms_of start_ns now =
     (if truthy start_ns
      then (case int_sub now start_ns of
              Inl e \<Rightarrow> Inl e
            | Inr d \<Rightarrow> true_div d 1000000)
      else Inr PNone)"

text \<open>The dictionary literal \<^verbatim>\<open>record\<close>.\<close>

definition make_record :: "MiddlewareContext \<Rightarrow> pyval \<Rightarrow> pyval \<Rightarrow> pydict" where
  "make_record ctx elapsed_ms result =
     [''lineage_id'' \<mapsto> dict_get (metadata ctx) ''lineage_id'',
      ''agent_name'' \<mapsto> PStr (agent_name ctx),
      ''method'' \<mapsto> PStr (method ctx),
      ''elapsed_ms'' \<mapsto> elapsed_ms,
      ''has_result'' \<mapsto> PBool (result \<noteq> PNone)]"

text \<open>
  \<^verbatim>\<open>after_run\<close> returns the outcome (the value returned, or the exception raised), the
  context and the store. The \<^verbatim>\<open>pop\<close> comes first, so a call that raises has already
  removed the key.
\<close>

definition after_run ::
  "DataLineageMiddleware \<Rightarrow> MiddlewareContext \<Rightarrow> pyval \<Rightarrow> 64 word \<Rightarrow> heap \<Rightarrow>
     (error + pyval) \<times> MiddlewareContext \<times> heap" where
  "after_run self ctx result now h =
     (let (start_ns, md) = dict_pop (metadata ctx) ''lineage_start_ns'' PNone;
          ctx' = ctx\<lparr>metadata := md\<rparr>
      in case elapsed_ms_of start_ns (sint now) of
           Inl e \<Rightarrow> (Inl e, ctx', h)
         | Inr elapsed_ms \<Rightarrow>
             (let (r, h') = alloc_dict (make_record ctx' elapsed_ms result) h
              in (Inr result, ctx', list_append (records_attr self) r h')))"

text \<open>The context as \<^verbatim>\<open>after_run\<close> leaves it: without the start timestamp.\<close>

definition popped :: "MiddlewareContext \<Rightarrow> MiddlewareContext" where
  "popped ctx = ctx\<lparr>metadata := (metadata ctx)(''lineage_start_ns'' := None)\<rparr>"

text \<open>The fixture \<^verbatim>\<open>middleware\<close> of the tests: a new middleware in an empty store.\<close>

definition middleware :: "DataLineageMiddleware \<times> heap" where
  "middleware = init empty_heap"

section \<open>Sequences of calls\<close>

text \<open>
  The agent runtime calls the two hooks around every invocation, each invocation on
  its own context. Neither hook awaits anything, so a call runs to its end before
  the next one starts, and what the runtime does is a sequence of calls. A \<open>world\<close>
  holds the contexts, by number, and the store; a call names its context and carries
  what the environment supplies (the token and the clock reading). An \<^verbatim>\<open>after_run\<close>
  that raises has popped the key and leaves the store as it was.
\<close>

record world =
  contexts :: "nat \<Rightarrow> MiddlewareContext"
  store :: heap

datatype call = BeforeRun nat string "64 word" | AfterRun nat pyval "64 word"

fun step :: "DataLineageMiddleware \<Rightarrow> call \<Rightarrow> world \<Rightarrow> world" where
  "step self (BeforeRun i lineage_id now) w =
     w\<lparr>contexts := (contexts w)(i := before_run (contexts w i) lineage_id now)\<rparr>"
| "step self (AfterRun i result now) w =
     (let (out, ctx', h') = after_run self (contexts w i) result now (store w)
      in w\<lparr>contexts := (contexts w)(i := ctx'), store := h'\<rparr>)"

fun run :: "DataLineageMiddleware \<Rightarrow> call list \<Rightarrow> world \<Rightarrow> world" where
  "run self [] w = w"
| "run self (c # cs) w = run self cs (step self c w)"

text \<open>
  The \<^verbatim>\<open>after_run\<close> calls of a sequence that return, in the order of the calls: the
  context and the result of each.
\<close>

fun completed :: "DataLineageMiddleware \<Rightarrow> call list \<Rightarrow> world \<Rightarrow> (nat \<times> pyval) list" where
  "completed self [] w = []"
| "completed self (BeforeRun i lineage_id now # cs) w =
     completed self cs (step self (BeforeRun i lineage_id now) w)"
| "completed self (AfterRun i result now # cs) w =
     (case fst (after_run self (contexts w i) result now (store w)) of
        Inl e \<Rightarrow> []
      | Inr v \<Rightarrow> [(i, result)])
     @ completed self cs (step self (AfterRun i result now) w)"

text \<open>
  What identifies the invocation in a record, and the same three entries as the
  invocation determines them.
\<close>

definition summary :: "pydict \<Rightarrow> pyval option \<times> pyval option \<times> pyval option" where
  "summary r = (r ''agent_name'', r ''method'', r ''has_result'')"

definition invocation :: "world \<Rightarrow> nat \<times> pyval \<Rightarrow> pyval option \<times> pyval option \<times> pyval option" where
  "invocation w ir =
     (Some (PStr (agent_name (contexts w (fst ir)))),
      Some (PStr (method (contexts w (fst ir)))),
      Some (PBool (snd ir \<noteq> PNone)))"

text \<open>
  The contexts of \<^verbatim>\<open>test_multiple_runs_accumulate_records\<close>, \<^verbatim>\<open>agent-0\<close> to \<^verbatim>\<open>agent-2\<close>,
  with a new middleware.
\<close>

definition test_world :: world where
  "test_world =
     \<lparr>contexts = (\<lambda>i. FakeMiddlewareContext
          (if i = 0 then ''agent-0'' else if i = 1 then ''agent-1'' else ''agent-2'')),
      store = snd middleware\<rparr>"








section \<open>Readers of the log\<close>

text \<open>
  A reader holds the list that \<^verbatim>\<open>records\<close> returned, at address \<open>s\<close>, and can change it
  and the dictionaries in it: \<open>ListSet xs\<close> is \<^verbatim>\<open>snapshot[:] = xs\<close> (which covers
  \<^verbatim>\<open>clear\<close>, \<^verbatim>\<open>pop\<close>, \<^verbatim>\<open>reverse\<close> and \<^verbatim>\<open>append\<close>), \<open>ItemSet j k v\<close> is
  \<^verbatim>\<open>snapshot[j][k] = v\<close> and \<open>ItemDel j k\<close> is \<^verbatim>\<open>del snapshot[j][k]\<close>. An index out of
  range raises in the reader and changes nothing. The references a reader stores are
  to objects that existed when the snapshot was taken (\<open>mutation_ok\<close>).
\<close>

datatype mutation = ListSet "addr list" | ItemSet nat string pyval | ItemDel nat string

fun mutate :: "addr \<Rightarrow> mutation \<Rightarrow> heap \<Rightarrow> heap" where
  "mutate s (ListSet xs) h = h\<lparr>list_objs := (list_objs h)(s \<mapsto> xs)\<rparr>"
| "mutate s (ItemSet j k v) h =
     (if j < length (list_at h s)
      then h\<lparr>dict_objs := (dict_objs h)(list_at h s ! j \<mapsto> (dict_at h (list_at h s ! j))(k \<mapsto> v))\<rparr>
      else h)"
| "mutate s (ItemDel j k) h =
     (if j < length (list_at h s)
      then h\<lparr>dict_objs := (dict_objs h)(list_at h s ! j \<mapsto> (dict_at h (list_at h s ! j))(k := None))\<rparr>
      else h)"

fun mutation_ok :: "addr \<Rightarrow> mutation \<Rightarrow> bool" where
  "mutation_ok s (ListSet xs) = (\<forall>x \<in> set xs. x < s)"
| "mutation_ok s (ItemSet j k v) = True"
| "mutation_ok s (ItemDel j k) = True"

text \<open>The calls of the runtime, interleaved with what a reader does to its snapshot.\<close>

datatype event = Call call | Mutate mutation

fun step_event :: "DataLineageMiddleware \<Rightarrow> addr \<Rightarrow> event \<Rightarrow> world \<Rightarrow> world" where
  "step_event self s (Call c) w = step self c w"
| "step_event self s (Mutate m) w = w\<lparr>store := mutate s m (store w)\<rparr>"

fun run_events :: "DataLineageMiddleware \<Rightarrow> addr \<Rightarrow> event list \<Rightarrow> world \<Rightarrow> world" where
  "run_events self s [] w = w"
| "run_events self s (e # es) w = run_events self s es (step_event self s e w)"

fun calls_of :: "event list \<Rightarrow> call list" where
  "calls_of [] = []"
| "calls_of (Call c # es) = c # calls_of es"
| "calls_of (Mutate m # es) = calls_of es"

fun mutations_ok :: "addr \<Rightarrow> event list \<Rightarrow> bool" where
  "mutations_ok s [] = True"
| "mutations_ok s (Call c # es) = mutations_ok s es"
| "mutations_ok s (Mutate m # es) = (mutation_ok s m \<and> mutations_ok s es)"

text \<open>\<^verbatim>\<open>snapshot = middleware.records\<close>, in a world.\<close>

definition snapshot :: "DataLineageMiddleware \<Rightarrow> world \<Rightarrow> addr \<times> world" where
  "snapshot self w = (let (s, h') = records self (store w) in (s, w\<lparr>store := h'\<rparr>))"

text \<open>
  The relation between a world in which a reader changes its snapshot at \<open>s\<close> and the
  world in which it does not: they agree on the contexts, on every list but the
  snapshot and on every dictionary created after the snapshot; the snapshot refers
  to older objects only, and the log is \<open>base\<close> followed by newer records.
\<close>

definition sim :: "DataLineageMiddleware \<Rightarrow> addr \<Rightarrow> addr list \<Rightarrow> world \<Rightarrow> world \<Rightarrow> bool" where
  "sim self s base wm wp =
     (contexts wm = contexts wp \<and>
      next_addr (store wm) = next_addr (store wp) \<and>
      s < next_addr (store wp) \<and>
      (\<forall>l. l \<noteq> s \<longrightarrow> list_objs (store wm) l = list_objs (store wp) l) \<and>
      (\<forall>a. s < a \<longrightarrow> dict_objs (store wm) a = dict_objs (store wp) a) \<and>
      (\<forall>x \<in> set (list_at (store wm) s). x < s) \<and>
      (\<exists>ys. list_at (store wp) (records_attr self) = base @ ys \<and> (\<forall>y \<in> set ys. s < y)))"

text \<open>
  A world after one completed invocation, the state in which
  \<^verbatim>\<open>test_records_returns_copy\<close> reads \<^verbatim>\<open>records\<close>.
\<close>

definition one_record_world :: world where
  "one_record_world =
     run (fst middleware) [BeforeRun 0 ''a0'' 10, AfterRun 0 (PStr ''x'') 15] test_world"

section \<open>Basic facts\<close>

lemma float_limit_big: "2 ^ 64 \<le> 1000000 * float_limit"
  by (simp add: float_limit_def)

lemma clock_diff_small: "\<bar>sint (t1 :: 64 word) - sint (t0 :: 64 word)\<bar> < 2 ^ 64"
  using sint_ge[of t1] sint_lt[of t1] sint_ge[of t0] sint_lt[of t0] by simp

lemma elapsed_ms_of_falsy: "\<not> truthy v \<Longrightarrow> elapsed_ms_of v n = Inr PNone"
  by (simp add: elapsed_ms_of_def)

lemma elapsed_ms_of_clock:
  "elapsed_ms_of (PInt (sint (t0 :: 64 word))) (sint (t1 :: 64 word)) =
     Inr (if sint t0 = 0 then PNone else PFloat (of_int (sint t1 - sint t0) / 1000000))"
  using clock_diff_small[of t1 t0] float_limit_big
  by (simp add: elapsed_ms_of_def int_true_div_def)

lemma dict_pop_eq: "dict_pop d k PNone = (dict_get d k, d(k := None))"
  by (auto simp: dict_pop_def dict_get_def split: option.splits)

lemma after_run_Inl:
  "elapsed_ms_of (dict_get (metadata ctx) ''lineage_start_ns'') (sint now) = Inl e \<Longrightarrow>
   after_run self ctx result now h = (Inl e, popped ctx, h)"
  by (simp add: after_run_def dict_pop_eq popped_def Let_def)

lemma after_run_Inr:
  "elapsed_ms_of (dict_get (metadata ctx) ''lineage_start_ns'') (sint now) = Inr el \<Longrightarrow>
   after_run self ctx result now h =
     (Inr result, popped ctx,
      list_append (records_attr self) (next_addr h)
        (snd (alloc_dict (make_record (popped ctx) el result) h)))"
  by (simp add: after_run_def dict_pop_eq popped_def alloc_dict_def Let_def)

lemma log_of_append:
  assumes "heap_ok h"
  shows "log_of self (list_append (records_attr self) (next_addr h) (snd (alloc_dict d h)))
         = log_of self h @ [d]"
proof -
  have "\<forall>x \<in> set (list_at h (records_attr self)). x < next_addr h"
  proof (cases "list_objs h (records_attr self)")
    case None
    then show ?thesis by (simp add: list_at_def)
  next
    case (Some xs)
    with assms show ?thesis unfolding heap_ok_def list_at_def by fastforce
  qed
  then show ?thesis
    by (auto simp: log_of_def view_def list_append_def alloc_dict_def list_at_def dict_at_def)
qed


lemma make_record_fields:
  "make_record c el r ''lineage_id'' = Some (dict_get (metadata c) ''lineage_id'')"
  "make_record c el r ''agent_name'' = Some (PStr (agent_name c))"
  "make_record c el r ''method'' = Some (PStr (method c))"
  "make_record c el r ''elapsed_ms'' = Some el"
  "make_record c el r ''has_result'' = Some (PBool (r \<noteq> PNone))"
  by (simp_all add: make_record_def)

lemma popped_fields:
  "agent_name (popped c) = agent_name c"
  "method (popped c) = method c"
  "metadata (popped c) ''lineage_start_ns'' = None"
  "k \<noteq> ''lineage_start_ns'' \<Longrightarrow> metadata (popped c) k = metadata c k"
  by (simp_all add: popped_def)

lemma after_run_returned:
  assumes "after_run self ctx result now h = (Inr v, ctx', h')"
  shows "\<exists>el. elapsed_ms_of (dict_get (metadata ctx) ''lineage_start_ns'') (sint now) = Inr el \<and>
              v = result \<and> ctx' = popped ctx \<and>
              h' = list_append (records_attr self) (next_addr h)
                     (snd (alloc_dict (make_record (popped ctx) el result) h))"
proof (cases "elapsed_ms_of (dict_get (metadata ctx) ''lineage_start_ns'') (sint now)")
  case (Inl e)
  from after_run_Inl[OF this, of self result h] assms show ?thesis by simp
next
  case (Inr el)
  from after_run_Inr[OF this, of self result h] assms show ?thesis using Inr by auto
qed

lemma after_run_log:
  assumes "heap_ok h" and "after_run self ctx result now h = (Inr v, ctx', h')"
  shows "\<exists>el. elapsed_ms_of (dict_get (metadata ctx) ''lineage_start_ns'') (sint now) = Inr el \<and>
              log_of self h' = log_of self h @ [make_record (popped ctx) el result]"
  using after_run_returned[OF assms(2)] log_of_append[OF assms(1)] by auto

lemma heap_ok_empty: "heap_ok empty_heap"
  by (simp add: heap_ok_def empty_heap_def)

lemma heap_ok_alloc_list:
  "heap_ok h \<Longrightarrow> \<forall>x \<in> set xs. x < next_addr h \<Longrightarrow> heap_ok (snd (alloc_list xs h))"
  unfolding heap_ok_def alloc_list_def by (auto simp: less_Suc_eq split: if_splits) 

lemma heap_ok_init: "heap_ok h \<Longrightarrow> heap_ok (snd (init h))"
  using heap_ok_alloc_list[of h "[]"] by (simp add: init_def split_beta)

lemma list_at_bound:
  "heap_ok h \<Longrightarrow> x \<in> set (list_at h l) \<Longrightarrow> x < next_addr h"
  unfolding heap_ok_def list_at_def by (cases "list_objs h l") auto

lemma heap_ok_append_rec:
  assumes "heap_ok h" and "l < next_addr h"
  shows "heap_ok (list_append l (next_addr h) (snd (alloc_dict d h)))"
  using assms list_at_bound[OF assms(1), of _ l]
  unfolding heap_ok_def list_append_def alloc_dict_def list_at_def
  by (auto simp: less_Suc_eq split: if_splits option.splits)

lemma records_view_eq: "records_view self h = log_of self h"
  by (simp add: records_view_def records_def alloc_list_def view_def log_of_def list_at_def dict_at_def)

lemma fake_context_metadata: "metadata fake_context k = None"
  by (simp add: fake_context_def FakeMiddlewareContext_def)

lemma heap_ok_middleware: "heap_ok (snd middleware)"
  unfolding middleware_def by (rule heap_ok_init[OF heap_ok_empty])

lemma before_run_fields:
  "metadata (before_run ctx lid t0) ''lineage_id'' = Some (PStr lid)"
  "metadata (before_run ctx lid t0) ''lineage_agent'' = Some (PStr (agent_name ctx))"
  "metadata (before_run ctx lid t0) ''lineage_start_ns'' = Some (PInt (sint t0))"
  "agent_name (before_run ctx lid t0) = agent_name ctx"
  "method (before_run ctx lid t0) = method ctx"
  by (simp_all add: before_run_def)

lemma after_run_absent:
  assumes "metadata ctx ''lineage_start_ns'' = None"
  shows "after_run self ctx result now h =
     (Inr result, popped ctx,
      list_append (records_attr self) (next_addr h)
        (snd (alloc_dict (make_record (popped ctx) PNone result) h)))"
proof -
  have "elapsed_ms_of (dict_get (metadata ctx) ''lineage_start_ns'') (sint now) = Inr PNone"
    using assms by (simp add: dict_get_def elapsed_ms_of_falsy)
  from after_run_Inr[OF this] show ?thesis .
qed

lemma after_run_clock:
  assumes "metadata ctx ''lineage_start_ns'' = Some (PInt (sint (t0 :: 64 word)))"
  shows "after_run self ctx result now h =
     (Inr result, popped ctx,
      list_append (records_attr self) (next_addr h)
        (snd (alloc_dict (make_record (popped ctx)
           (if sint t0 = 0 then PNone else PFloat (of_int (sint now - sint t0) / 1000000)) result) h)))"
proof -
  have "elapsed_ms_of (dict_get (metadata ctx) ''lineage_start_ns'') (sint now) =
     Inr (if sint t0 = 0 then PNone else PFloat (of_int (sint now - sint t0) / 1000000))"
    using assms elapsed_ms_of_clock[of t0 now] by (simp add: dict_get_def)
  from after_run_Inr[OF this] show ?thesis .
qed

lemma owns_bound: "heap_ok h \<Longrightarrow> owns self h \<Longrightarrow> records_attr self < next_addr h"
  unfolding heap_ok_def owns_def by auto

lemma owns_middleware: "owns (fst middleware) (snd middleware)"
  by (simp add: middleware_def init_def alloc_list_def owns_def)

lemma heap_ok_after_run:
  assumes "heap_ok h" and "owns self h"
  shows "heap_ok (snd (snd (after_run self ctx result now h)))"
proof (cases "elapsed_ms_of (dict_get (metadata ctx) ''lineage_start_ns'') (sint now)")
  case (Inl e)
  from after_run_Inl[OF this, of self result h] assms(1) show ?thesis by simp
next
  case (Inr el)
  from after_run_Inr[OF this, of self result h]
    heap_ok_append_rec[OF assms(1) owns_bound[OF assms]]
  show ?thesis by simp
qed

lemma owns_after_run:
  assumes "owns self h"
  shows "owns self (snd (snd (after_run self ctx result now h)))"
proof (cases "elapsed_ms_of (dict_get (metadata ctx) ''lineage_start_ns'') (sint now)")
  case (Inl e)
  from after_run_Inl[OF this, of self result h] assms show ?thesis by simp
next
  case (Inr el)
  from after_run_Inr[OF this, of self result h] assms
  show ?thesis by (simp add: owns_def list_append_def alloc_dict_def)
qed

section \<open>The value returned\<close>

text \<open>
  C1. \<^verbatim>\<open>after_run\<close> returns exactly the \<open>result\<close> it was given, \<^verbatim>\<open>None\<close> included: whatever
  a call returns is \<open>result\<close>; and the call does return, on a context without a start
  timestamp as well as on any context that \<^verbatim>\<open>before_run\<close> has prepared.
\<close>

theorem after_run_returns_result:
  "(after_run self ctx result now h = (Inr v, ctx', h') \<longrightarrow> v = result) \<and>
   (metadata ctx ''lineage_start_ns'' = None \<longrightarrow> fst (after_run self ctx result now h) = Inr result) \<and>
   fst (after_run self (before_run ctx lineage_id t0) result now h) = Inr result"
proof (intro conjI impI)
  assume "after_run self ctx result now h = (Inr v, ctx', h')"
  from after_run_returned[OF this] show "v = result" by blast
next
  assume "metadata ctx ''lineage_start_ns'' = None"
  then have "elapsed_ms_of (dict_get (metadata ctx) ''lineage_start_ns'') (sint now) = Inr PNone"
    by (simp add: dict_get_def elapsed_ms_of_falsy)
  from after_run_Inr[OF this] show "fst (after_run self ctx result now h) = Inr result" by simp
next
  have "dict_get (metadata (before_run ctx lineage_id t0)) ''lineage_start_ns'' = PInt (sint t0)"
    by (simp add: before_run_def dict_get_def)
  then have "\<exists>el. elapsed_ms_of (dict_get (metadata (before_run ctx lineage_id t0)) ''lineage_start_ns'')
                 (sint now) = Inr el"
    by (simp add: elapsed_ms_of_clock)
  then obtain el where "elapsed_ms_of (dict_get (metadata (before_run ctx lineage_id t0)) ''lineage_start_ns'')
                 (sint now) = Inr el" ..
  from after_run_Inr[OF this]
  show "fst (after_run self (before_run ctx lineage_id t0) result now h) = Inr result" by simp
qed

theorem after_run_returns_result_witness:
  "after_run (fst middleware) fake_context PNone 5 (snd middleware) =
     (Inr PNone, snd (after_run (fst middleware) fake_context PNone 5 (snd middleware))) \<and>
   metadata fake_context ''lineage_start_ns'' = None \<and>
   fst (after_run (fst middleware) (before_run fake_context ''0f'' 3)
          (PDict [(''answer'', PInt 42)]) 10 (snd middleware)) = Inr (PDict [(''answer'', PInt 42)])"
  using after_run_returns_result[where self = "fst middleware" and ctx = fake_context
      and result = PNone and now = 5 and h = "snd middleware"]
    after_run_returns_result[where self = "fst middleware" and ctx = fake_context
      and result = "PDict [(''answer'', PInt 42)]" and now = 10 and h = "snd middleware"
      and lineage_id = "''0f''" and ?t0.0 = 3]
  by (simp add: fake_context_metadata prod_eq_iff)

section \<open>The elapsed time\<close>

text \<open>
  On a context prepared by \<^verbatim>\<open>before_run\<close> at a clock reading other than zero, the call
  removes the start timestamp and records \<open>(now - start) / 1000000\<close>.
\<close>

lemma after_run_elapsed_ms:
  assumes "heap_ok h" and "sint t0 \<noteq> 0"
  shows "\<exists>ctx' h' rec.
           after_run self (before_run ctx lid t0) result now h = (Inr result, ctx', h') \<and>
           metadata ctx' ''lineage_start_ns'' = None \<and>
           log_of self h' = log_of self h @ [rec] \<and>
           rec ''elapsed_ms'' = Some (PFloat (of_int (sint now - sint t0) / 1000000))"
  using after_run_clock[OF before_run_fields(3), of self ctx lid t0 result now h]
    log_of_append[OF assms(1), of self] assms(2)
  by (simp add: make_record_fields popped_fields)

text \<open>
  C2. \<^verbatim>\<open>after_run\<close> removes the start timestamp and records \<open>(now - start) / 1e6\<close> whenever
  a start timestamp was present. The code tests the truth value of the timestamp, not
  its presence: with the start timestamp \<open>0\<close> stored by \<^verbatim>\<open>before_run\<close> and the clock at
  \<open>5000000\<close> ns, the timestamp is present, and the record's \<open>elapsed_ms\<close> is \<^verbatim>\<open>None\<close>
  instead of \<open>5.0\<close>.
\<close>

theorem after_run_start_ns_zero:
  "metadata (before_run fake_context ''0f'' 0) ''lineage_start_ns'' = Some (PInt 0) \<and>
   map (\<lambda>r. r ''elapsed_ms'')
     (log_of (fst middleware)
        (snd (snd (after_run (fst middleware) (before_run fake_context ''0f'' 0)
                     (PStr ''x'') 5000000 (snd middleware))))) = [Some PNone]"
proof -
  have m: "metadata (before_run fake_context ''0f'' 0) ''lineage_start_ns'' = Some (PInt (sint (0 :: 64 word)))"
    by (simp add: before_run_fields)
  have "log_of (fst middleware) (snd middleware) = []"
    by (simp add: middleware_def init_def alloc_list_def log_of_def view_def list_at_def)
  then show ?thesis
    using after_run_clock[OF m, of "fst middleware" "PStr ''x''" 5000000 "snd middleware"]
      log_of_append[OF heap_ok_middleware, of "fst middleware"] m
    by (simp add: make_record_fields)
qed

section \<open>A context that never received \<^verbatim>\<open>before_run\<close>\<close>

text \<open>
  C3. A context that never received \<^verbatim>\<open>before_run\<close> holds neither of the keys
  \<open>lineage_start_ns\<close> and \<open>lineage_id\<close> that \<^verbatim>\<open>before_run\<close> writes. On such a context
  \<^verbatim>\<open>after_run\<close> does not raise: it returns \<open>result\<close> and appends one record to the log,
  in which \<open>elapsed_ms\<close> and \<open>lineage_id\<close> are both \<^verbatim>\<open>None\<close>.
\<close>

theorem after_run_without_before_run:
  assumes "heap_ok h"
    and "metadata ctx ''lineage_start_ns'' = None"
    and "metadata ctx ''lineage_id'' = None"
  shows "\<exists>ctx' h' rec. after_run self ctx result now h = (Inr result, ctx', h') \<and>
           log_of self h' = log_of self h @ [rec] \<and>
           rec ''elapsed_ms'' = Some PNone \<and> rec ''lineage_id'' = Some PNone"
proof -
  let ?rec = "make_record (popped ctx) PNone result"
  have "?rec ''lineage_id'' = Some PNone"
    using assms(3) by (simp add: make_record_fields popped_fields dict_get_def)
  moreover have "?rec ''elapsed_ms'' = Some PNone"
    by (simp add: make_record_fields)
  ultimately show ?thesis
    using after_run_absent[OF assms(2), of self result now h] log_of_append[OF assms(1), of self ?rec]
    by auto
qed

theorem after_run_without_before_run_witness:
  "heap_ok (snd middleware) \<and> metadata fake_context ''lineage_start_ns'' = None \<and>
   metadata fake_context ''lineage_id'' = None \<and>
   (\<exists>ctx' h' rec. after_run (fst middleware) fake_context (PStr ''x'') 7 (snd middleware)
        = (Inr (PStr ''x''), ctx', h') \<and>
      log_of (fst middleware) h' = log_of (fst middleware) (snd middleware) @ [rec] \<and>
      rec ''elapsed_ms'' = Some PNone \<and> rec ''lineage_id'' = Some PNone)"
  using after_run_without_before_run[OF heap_ok_middleware fake_context_metadata fake_context_metadata,
      of "fst middleware" "PStr ''x''" 7]
    heap_ok_middleware fake_context_metadata
  by simp

section \<open>The flag \<open>has_result\<close>\<close>

text \<open>
  C6. The record that a returning call of \<^verbatim>\<open>after_run\<close> appends has \<open>has_result\<close> equal
  to \<^verbatim>\<open>True\<close> if and only if \<open>result\<close> is not \<^verbatim>\<open>None\<close> (and \<^verbatim>\<open>False\<close> otherwise).
\<close>

theorem after_run_has_result:
  assumes "heap_ok h" and "after_run self ctx result now h = (Inr v, ctx', h')"
  shows "\<exists>rec. log_of self h' = log_of self h @ [rec] \<and>
           (rec ''has_result'' = Some (PBool True) \<longleftrightarrow> result \<noteq> PNone) \<and>
           (rec ''has_result'' = Some (PBool False) \<longleftrightarrow> result = PNone)"
  using after_run_log[OF assms] by (auto simp: make_record_fields)

theorem after_run_has_result_witness:
  "heap_ok (snd middleware) \<and>
   after_run (fst middleware) fake_context PNone 7 (snd middleware) =
     (Inr PNone, snd (after_run (fst middleware) fake_context PNone 7 (snd middleware))) \<and>
   (\<exists>rec. log_of (fst middleware) (snd (snd (after_run (fst middleware) fake_context PNone 7 (snd middleware))))
       = log_of (fst middleware) (snd middleware) @ [rec] \<and>
      rec ''has_result'' = Some (PBool False))"
proof -
  have eq: "after_run (fst middleware) fake_context PNone 7 (snd middleware) =
     (Inr PNone, fst (snd (after_run (fst middleware) fake_context PNone 7 (snd middleware))),
      snd (snd (after_run (fst middleware) fake_context PNone 7 (snd middleware))))"
    using after_run_absent[OF fake_context_metadata, of "fst middleware" PNone 7 "snd middleware"]
    by simp
  from after_run_has_result[OF heap_ok_middleware eq] eq heap_ok_middleware
  show ?thesis by auto
qed

section \<open>Calling \<^verbatim>\<open>after_run\<close> twice\<close>

text \<open>
  C9. \<^verbatim>\<open>after_run\<close> never removes the key \<open>lineage_id\<close>: after \<^verbatim>\<open>before_run\<close> and
  \<^verbatim>\<open>after_run\<close>, a second \<^verbatim>\<open>after_run\<close> on the same context appends a second record
  with the lineage id of the first and with \<open>elapsed_ms\<close> equal to \<^verbatim>\<open>None\<close>.
\<close>

theorem after_run_twice:
  assumes "heap_ok h" and "owns self h"
  shows "\<exists>c1 h1 c2 h2 rec1 rec2.
           after_run self (before_run ctx lid t0) r1 t1 h = (Inr r1, c1, h1) \<and>
           after_run self c1 r2 t2 h1 = (Inr r2, c2, h2) \<and>
           log_of self h2 = log_of self h @ [rec1, rec2] \<and>
           metadata c1 ''lineage_id'' = Some (PStr lid) \<and>
           metadata c2 ''lineage_id'' = Some (PStr lid) \<and>
           rec1 ''lineage_id'' = Some (PStr lid) \<and>
           rec2 ''lineage_id'' = rec1 ''lineage_id'' \<and>
           rec2 ''elapsed_ms'' = Some PNone"
proof -
  let ?c0 = "before_run ctx lid t0"
  let ?el = "if sint t0 = 0 then PNone else PFloat (of_int (sint t1 - sint t0) / 1000000)"
  let ?rec1 = "make_record (popped ?c0) ?el r1"
  let ?h1 = "list_append (records_attr self) (next_addr h) (snd (alloc_dict ?rec1 h))"
  let ?c1 = "popped ?c0"
  let ?rec2 = "make_record (popped ?c1) PNone r2"
  let ?h2 = "list_append (records_attr self) (next_addr ?h1) (snd (alloc_dict ?rec2 ?h1))"
  have s1: "after_run self ?c0 r1 t1 h = (Inr r1, ?c1, ?h1)"
    by (rule after_run_clock[OF before_run_fields(3)])
  have ok1: "heap_ok ?h1"
    using heap_ok_after_run[OF assms, of ?c0 r1 t1] s1 by simp
  have s2: "after_run self ?c1 r2 t2 ?h1 = (Inr r2, popped ?c1, ?h2)"
    by (rule after_run_absent) (simp add: popped_fields)
  have l1: "log_of self ?h1 = log_of self h @ [?rec1]"
    by (rule log_of_append[OF assms(1)])
  have l2: "log_of self ?h2 = log_of self ?h1 @ [?rec2]"
    by (rule log_of_append[OF ok1])
  have id1: "metadata ?c1 ''lineage_id'' = Some (PStr lid)"
    by (simp add: popped_fields before_run_fields)
  have id2: "metadata (popped ?c1) ''lineage_id'' = Some (PStr lid)"
    by (simp add: popped_fields before_run_fields)
  have r1: "?rec1 ''lineage_id'' = Some (PStr lid)"
    using id1 by (simp add: make_record_fields dict_get_def)
  have r2: "?rec2 ''lineage_id'' = Some (PStr lid)"
    using id2 by (simp add: make_record_fields dict_get_def)
  have e2: "?rec2 ''elapsed_ms'' = Some PNone"
    by (simp add: make_record_fields)
  from s1 s2 l1 l2 id1 id2 r1 r2 e2 show ?thesis
    by (intro exI[of _ ?c1] exI[of _ ?h1] exI[of _ "popped ?c1"] exI[of _ ?h2]
          exI[of _ ?rec1] exI[of _ ?rec2]) simp
qed

theorem after_run_twice_witness:
  "heap_ok (snd middleware) \<and> owns (fst middleware) (snd middleware) \<and>
   (\<exists>c1 h1 c2 h2 rec1 rec2.
      after_run (fst middleware) (before_run fake_context ''0f'' 3) (PStr ''x'') 9 (snd middleware)
        = (Inr (PStr ''x''), c1, h1) \<and>
      after_run (fst middleware) c1 PNone 12 h1 = (Inr PNone, c2, h2) \<and>
      log_of (fst middleware) h2 = log_of (fst middleware) (snd middleware) @ [rec1, rec2] \<and>
      rec1 ''lineage_id'' = Some (PStr ''0f'') \<and>
      rec2 ''lineage_id'' = Some (PStr ''0f'') \<and>
      rec2 ''elapsed_ms'' = Some PNone)"
proof -
  from after_run_twice[OF heap_ok_middleware owns_middleware, of fake_context "''0f''" 3 "PStr ''x''" 9 PNone 12]
  obtain c1 h1 c2 h2 rec1 rec2 where
    "after_run (fst middleware) (before_run fake_context ''0f'' 3) (PStr ''x'') 9 (snd middleware)
        = (Inr (PStr ''x''), c1, h1)"
    "after_run (fst middleware) c1 PNone 12 h1 = (Inr PNone, c2, h2)"
    "log_of (fst middleware) h2 = log_of (fst middleware) (snd middleware) @ [rec1, rec2]"
    "rec1 ''lineage_id'' = Some (PStr ''0f'')"
    "rec2 ''lineage_id'' = rec1 ''lineage_id''"
    "rec2 ''elapsed_ms'' = Some PNone"
    by blast
  then show ?thesis using heap_ok_middleware owns_middleware by auto
qed

section \<open>The key \<open>lineage_agent\<close>\<close>

text \<open>
  C10. \<^verbatim>\<open>after_run\<close> never reads the key \<open>lineage_agent\<close>: whatever is stored under it,
  or nothing, the outcome and the store are the same. The record's \<open>agent_name\<close> is the
  context's \<open>agent_name\<close> at the time of \<^verbatim>\<open>after_run\<close>: if it changed after
  \<^verbatim>\<open>before_run\<close>, the record carries the later name, and \<open>lineage_agent\<close> keeps the
  earlier one.
\<close>

theorem after_run_ignores_lineage_agent:
  "(fst (after_run self (ctx\<lparr>metadata := (metadata ctx)(''lineage_agent'' := x)\<rparr>) result now h)
      = fst (after_run self ctx result now h) \<and>
    snd (snd (after_run self (ctx\<lparr>metadata := (metadata ctx)(''lineage_agent'' := x)\<rparr>) result now h))
      = snd (snd (after_run self ctx result now h))) \<and>
   (heap_ok h \<longrightarrow>
     (\<exists>c' h' rec.
        after_run self ((before_run ctx lid t0)\<lparr>agent_name := a\<rparr>) result now h = (Inr result, c', h') \<and>
        log_of self h' = log_of self h @ [rec] \<and>
        rec ''agent_name'' = Some (PStr a) \<and>
        metadata c' ''lineage_agent'' = Some (PStr (agent_name ctx))))"
proof (intro conjI impI)
  let ?c = "ctx\<lparr>metadata := (metadata ctx)(''lineage_agent'' := x)\<rparr>"
  have g: "dict_get (metadata ?c) ''lineage_start_ns'' = dict_get (metadata ctx) ''lineage_start_ns''"
    by (simp add: dict_get_def)
  have r: "make_record (popped ?c) el result = make_record (popped ctx) el result" for el
    by (simp add: make_record_def popped_def dict_get_def)
  show "fst (after_run self ?c result now h) = fst (after_run self ctx result now h)"
  proof (cases "elapsed_ms_of (dict_get (metadata ctx) ''lineage_start_ns'') (sint now)")
    case (Inl e)
    then show ?thesis
      using after_run_Inl[of ctx now e self result h] after_run_Inl[of ?c now e self result h] g
      by simp
  next
    case (Inr el)
    then show ?thesis
      using after_run_Inr[of ctx now el self result h] after_run_Inr[of ?c now el self result h] g
      by simp
  qed
  show "snd (snd (after_run self ?c result now h)) = snd (snd (after_run self ctx result now h))"
  proof (cases "elapsed_ms_of (dict_get (metadata ctx) ''lineage_start_ns'') (sint now)")
    case (Inl e)
    then show ?thesis
      using after_run_Inl[of ctx now e self result h] after_run_Inl[of ?c now e self result h] g
      by simp
  next
    case (Inr el)
    then show ?thesis
      using after_run_Inr[of ctx now el self result h] after_run_Inr[of ?c now el self result h] g r
      by simp
  qed
next
  assume ok: "heap_ok h"
  let ?c = "(before_run ctx lid t0)\<lparr>agent_name := a\<rparr>"
  have m: "metadata ?c ''lineage_start_ns'' = Some (PInt (sint t0))"
    by (simp add: before_run_fields)
  have ag: "metadata (popped ?c) ''lineage_agent'' = Some (PStr (agent_name ctx))"
    by (simp add: popped_def before_run_def)
  have nm: "agent_name (popped ?c) = a"
    by (simp add: popped_def)
  show "\<exists>c' h' rec.
        after_run self ?c result now h = (Inr result, c', h') \<and>
        log_of self h' = log_of self h @ [rec] \<and>
        rec ''agent_name'' = Some (PStr a) \<and>
        metadata c' ''lineage_agent'' = Some (PStr (agent_name ctx))"
    using after_run_clock[OF m, of self result now h] log_of_append[OF ok, of self] ag nm
    by (simp add: make_record_fields)
qed

theorem after_run_ignores_lineage_agent_witness:
  "heap_ok (snd middleware) \<and>
   (\<exists>c' h' rec.
      after_run (fst middleware) ((before_run (FakeMiddlewareContext ''agent-0'') ''0f'' 3)\<lparr>agent_name := ''agent-1''\<rparr>)
         PNone 9 (snd middleware) = (Inr PNone, c', h') \<and>
      log_of (fst middleware) h' = log_of (fst middleware) (snd middleware) @ [rec] \<and>
      rec ''agent_name'' = Some (PStr ''agent-1'') \<and>
      metadata c' ''lineage_agent'' = Some (PStr ''agent-0''))"
  using after_run_ignores_lineage_agent[where self = "fst middleware" and h = "snd middleware"
      and ctx = "FakeMiddlewareContext ''agent-0''" and lid = "''0f''" and ?t0.0 = 3
      and a = "''agent-1''" and result = PNone and now = 9]
    heap_ok_middleware
  by (simp add: FakeMiddlewareContext_def)

section \<open>The log of a sequence of calls\<close>

lemma step_names:
  "agent_name (contexts (step self c w) i) = agent_name (contexts w i)"
  "method (contexts (step self c w) i) = method (contexts w i)"
proof -
  show "agent_name (contexts (step self c w) i) = agent_name (contexts w i)"
  proof (cases c)
    case (BeforeRun j l t)
    then show ?thesis by (simp add: before_run_fields)
  next
    case (AfterRun j r t)
    obtain out c' h' where e: "after_run self (contexts w j) r t (store w) = (out, c', h')"
      by (cases "after_run self (contexts w j) r t (store w)") auto
    have "c' = popped (contexts w j)"
      using e after_run_Inl[of "contexts w j" t _ self r "store w"]
        after_run_Inr[of "contexts w j" t _ self r "store w"]
      by (cases "elapsed_ms_of (dict_get (metadata (contexts w j)) ''lineage_start_ns'') (sint t)") auto
    then show ?thesis using AfterRun e by (simp add: popped_fields)
  qed
  show "method (contexts (step self c w) i) = method (contexts w i)"
  proof (cases c)
    case (BeforeRun j l t)
    then show ?thesis by (simp add: before_run_fields)
  next
    case (AfterRun j r t)
    obtain out c' h' where e: "after_run self (contexts w j) r t (store w) = (out, c', h')"
      by (cases "after_run self (contexts w j) r t (store w)") auto
    have "c' = popped (contexts w j)"
      using e after_run_Inl[of "contexts w j" t _ self r "store w"]
        after_run_Inr[of "contexts w j" t _ self r "store w"]
      by (cases "elapsed_ms_of (dict_get (metadata (contexts w j)) ''lineage_start_ns'') (sint t)") auto
    then show ?thesis using AfterRun e by (simp add: popped_fields)
  qed
qed

lemma invocation_step: "invocation (step self c w) = invocation w"
  by (rule ext) (simp add: invocation_def step_names)

lemma step_store_ok:
  assumes "heap_ok (store w)" and "owns self (store w)"
  shows "heap_ok (store (step self c w)) \<and> owns self (store (step self c w))"
proof (cases c)
  case (BeforeRun j l t)
  then show ?thesis using assms by simp
next
  case (AfterRun j r t)
  then show ?thesis
    using heap_ok_after_run[OF assms, of "contexts w j" r t] owns_after_run[OF assms(2), of "contexts w j" r t]
    by (simp add: split_beta)
qed

lemma step_after_log:
  assumes "heap_ok (store w)"
  shows "map summary (log_of self (store (step self (AfterRun i r t) w))) =
         map summary (log_of self (store w)) @
           map (invocation w) (case fst (after_run self (contexts w i) r t (store w)) of
              Inl e \<Rightarrow> [] | Inr v \<Rightarrow> [(i, r)])"
proof (cases "elapsed_ms_of (dict_get (metadata (contexts w i)) ''lineage_start_ns'') (sint t)")
  case (Inl e)
  from after_run_Inl[OF this, of self r "store w"] show ?thesis by simp
next
  case (Inr el)
  from after_run_Inr[OF this, of self r "store w"] log_of_append[OF assms, of self]
  show ?thesis
    by (simp add: summary_def invocation_def make_record_fields popped_fields)
qed

lemma test_world_ok: "heap_ok (store test_world)" "owns (fst middleware) (store test_world)"
  by (simp_all add: test_world_def heap_ok_middleware owns_middleware)

lemma log_of_middleware: "log_of (fst middleware) (snd middleware) = []"
  by (simp add: middleware_def init_def alloc_list_def log_of_def view_def list_at_def)

text \<open>
  C5. After any sequence of calls \<^verbatim>\<open>records\<close> returns one record for each \<^verbatim>\<open>after_run\<close> call
  that returned, in the order in which these calls returned, after the records it held
  before: its length grows by their number, and the \<open>k\<close>-th new record carries the agent
  name, the method and the result flag of the \<open>k\<close>-th such call. A \<^verbatim>\<open>before_run\<close> call
  adds nothing, matched or not.
\<close>

theorem records_in_completion_order:
  assumes "heap_ok (store w)" and "owns self (store w)"
  shows "map summary (records_view self (store (run self cs w))) =
           map summary (records_view self (store w)) @ map (invocation w) (completed self cs w) \<and>
         length (records_view self (store (run self cs w))) =
           length (records_view self (store w)) + length (completed self cs w)"
proof -
  have "map summary (log_of self (store (run self cs w))) =
           map summary (log_of self (store w)) @ map (invocation w) (completed self cs w)"
    using assms
  proof (induction cs arbitrary: w)
    case Nil
    then show ?case by simp
  next
    case (Cons c cs)
    note ok = step_store_ok[OF Cons.prems, of c]
    have ih: "map summary (log_of self (store (run self cs (step self c w)))) =
           map summary (log_of self (store (step self c w))) @
           map (invocation w) (completed self cs (step self c w))"
      using Cons.IH[of "step self c w"] ok by (simp add: invocation_step)
    show ?case
    proof (cases c)
      case (BeforeRun j l t)
      then show ?thesis using ih by simp
    next
      case (AfterRun j r t)
      then show ?thesis using ih step_after_log[OF Cons.prems(1), of self j r t] by simp
    qed
  qed
  moreover from this have "length (map summary (log_of self (store (run self cs w)))) =
     length (map summary (log_of self (store w)) @ map (invocation w) (completed self cs w))"
    by (rule arg_cong)
  then have "length (log_of self (store (run self cs w))) =
     length (log_of self (store w)) + length (completed self cs w)"
    by simp
  ultimately show ?thesis unfolding records_view_eq by blast
qed

theorem records_in_completion_order_witness:
  "heap_ok (store test_world) \<and> owns (fst middleware) (store test_world) \<and>
   map summary (records_view (fst middleware) (store (run (fst middleware)
       [BeforeRun 0 ''a0'' 10, BeforeRun 1 ''a1'' 20, AfterRun 1 (PStr ''result-1'') 30,
        AfterRun 0 PNone 40, BeforeRun 2 ''a2'' 50] test_world))) =
     [(Some (PStr ''agent-1''), Some (PStr ''run''), Some (PBool True)),
      (Some (PStr ''agent-0''), Some (PStr ''run''), Some (PBool False))] \<and>
   length (records_view (fst middleware) (store (run (fst middleware)
       [BeforeRun 0 ''a0'' 10, BeforeRun 1 ''a1'' 20, AfterRun 1 (PStr ''result-1'') 30,
        AfterRun 0 PNone 40, BeforeRun 2 ''a2'' 50] test_world))) = 2"
proof -
  define cs where "cs = [BeforeRun 0 ''a0'' 10, BeforeRun 1 ''a1'' 20, AfterRun 1 (PStr ''result-1'') 30,
        AfterRun 0 PNone 40, BeforeRun 2 ''a2'' 50]"
  have c: "completed (fst middleware) cs test_world = [(1, PStr ''result-1''), (0, PNone)]"
    unfolding cs_def
    by (simp add: test_world_def FakeMiddlewareContext_def after_run_def before_run_def
        dict_pop_def elapsed_ms_of_def int_true_div_def float_limit_def Let_def split_beta)
  have l: "records_view (fst middleware) (store test_world) = []"
    by (simp add: test_world_def log_of_middleware records_view_eq)
  have i: "invocation test_world (Suc 0, PStr ''result-1'') =
             (Some (PStr ''agent-1''), Some (PStr ''run''), Some (PBool True))"
          "invocation test_world (0, PNone) =
             (Some (PStr ''agent-0''), Some (PStr ''run''), Some (PBool False))"
    by (simp_all add: invocation_def test_world_def FakeMiddlewareContext_def)
  have "map summary (records_view (fst middleware) (store (run (fst middleware) cs test_world))) =
     [(Some (PStr ''agent-1''), Some (PStr ''run''), Some (PBool True)),
      (Some (PStr ''agent-0''), Some (PStr ''run''), Some (PBool False))] \<and>
     length (records_view (fst middleware) (store (run (fst middleware) cs test_world))) = 2"
    using records_in_completion_order[OF test_world_ok, of cs] by (simp add: c l i)
  then show ?thesis using test_world_ok unfolding cs_def by blast
qed

section \<open>Uniqueness of lineage ids\<close>



















section \<open>Exceptions\<close>

text \<open>
  C8 says that \<^verbatim>\<open>after_run\<close> raises for no context with a string-keyed metadata mapping.
  With the string \<^verbatim>\<open>"abc"\<close> stored under \<open>lineage_start_ns\<close> the subtraction raises
  \<^verbatim>\<open>TypeError\<close>; the key has been popped and nothing is appended.
\<close>

theorem after_run_raises_counterexample:
  "after_run (fst middleware) (fake_context\<lparr>metadata := [''lineage_start_ns'' \<mapsto> PStr ''abc'']\<rparr>)
      PNone 5 (snd middleware)
   = (Inl TypeError, fake_context\<lparr>metadata := Map.empty\<rparr>, snd middleware)"
  by (simp add: after_run_def dict_pop_def elapsed_ms_of_def fake_context_def FakeMiddlewareContext_def)

text \<open>
  C8, amended. For every context with a string-keyed metadata mapping and every result
  value, \<^verbatim>\<open>after_run\<close> does not raise when the metadata holds no entry \<open>lineage_start_ns\<close>
  (no prior \<^verbatim>\<open>before_run\<close>) or the entry that \<^verbatim>\<open>before_run\<close> writes, a reading of the clock;
  and \<^verbatim>\<open>before_run\<close> followed by \<^verbatim>\<open>after_run\<close> does not raise, whatever the metadata held
  before.
\<close>

theorem after_run_does_not_raise:
  "(metadata ctx ''lineage_start_ns'' = None \<or>
    (\<exists>t1 :: 64 word. metadata ctx ''lineage_start_ns'' = Some (PInt (sint t1)))
      \<longrightarrow> (\<forall>e. fst (after_run self ctx result now h) \<noteq> Inl e)) \<and>
   (\<forall>e. fst (after_run self (before_run ctx' lineage_id t0) result now h) \<noteq> Inl e)"
proof (intro conjI impI)
  assume "metadata ctx ''lineage_start_ns'' = None \<or>
    (\<exists>t1 :: 64 word. metadata ctx ''lineage_start_ns'' = Some (PInt (sint t1)))"
  then show "\<forall>e. fst (after_run self ctx result now h) \<noteq> Inl e"
  proof
    assume "metadata ctx ''lineage_start_ns'' = None"
    from after_run_absent[OF this, of self result now h] show ?thesis by simp
  next
    assume "\<exists>t1 :: 64 word. metadata ctx ''lineage_start_ns'' = Some (PInt (sint t1))"
    then obtain t1 :: "64 word" where "metadata ctx ''lineage_start_ns'' = Some (PInt (sint t1))" ..
    from after_run_clock[OF this, of self result now h] show ?thesis by simp
  qed
next
  from after_run_clock[OF before_run_fields(3), of self ctx' lineage_id t0 result now h]
  show "\<forall>e. fst (after_run self (before_run ctx' lineage_id t0) result now h) \<noteq> Inl e" by simp
qed

theorem after_run_does_not_raise_witness:
  "metadata fake_context ''lineage_start_ns'' = None \<and>
   (\<forall>e. fst (after_run (fst middleware) fake_context (PStr ''x'') 5 (snd middleware)) \<noteq> Inl e) \<and>
   metadata (fake_context\<lparr>metadata := [''lineage_start_ns'' \<mapsto> PInt (sint (3 :: 64 word)), ''note'' \<mapsto> PList []]\<rparr>)
      ''lineage_start_ns'' = Some (PInt (sint (3 :: 64 word))) \<and>
   (\<forall>e. fst (after_run (fst middleware)
            (fake_context\<lparr>metadata := [''lineage_start_ns'' \<mapsto> PInt (sint (3 :: 64 word)), ''note'' \<mapsto> PList []]\<rparr>)
            PNone 5 (snd middleware)) \<noteq> Inl e) \<and>
   (\<forall>e. fst (after_run (fst middleware) (before_run fake_context ''0f'' 3) PNone 5 (snd middleware)) \<noteq> Inl e)"
proof -
  let ?c = "fake_context\<lparr>metadata := [''lineage_start_ns'' \<mapsto> PInt (sint (3 :: 64 word)), ''note'' \<mapsto> PList []]\<rparr>"
  have m: "metadata ?c ''lineage_start_ns'' = Some (PInt (sint (3 :: 64 word)))"
    by simp
  then have h: "metadata ?c ''lineage_start_ns'' = None \<or>
    (\<exists>t1 :: 64 word. metadata ?c ''lineage_start_ns'' = Some (PInt (sint t1)))"
    by blast
  from after_run_does_not_raise[of fake_context "fst middleware" "PStr ''x''" 5 "snd middleware"]
    after_run_does_not_raise[of ?c "fst middleware" PNone 5 "snd middleware" fake_context "''0f''" 3]
    fake_context_metadata[of "''lineage_start_ns''"] m h
  show ?thesis by blast
qed

section \<open>Snapshots\<close>

lemma step_frame:
  assumes "records_attr self \<noteq> s"
  shows "list_objs (store (step self c w)) s = list_objs (store w) s \<and>
         (\<forall>a < next_addr (store w). dict_objs (store (step self c w)) a = dict_objs (store w) a) \<and>
         next_addr (store w) \<le> next_addr (store (step self c w))"
proof (cases c)
  case (BeforeRun i l t)
  then show ?thesis by simp
next
  case (AfterRun i r t)
  show ?thesis
  proof (cases "elapsed_ms_of (dict_get (metadata (contexts w i)) ''lineage_start_ns'') (sint t)")
    case (Inl e)
    from after_run_Inl[OF this, of self r "store w"] AfterRun show ?thesis by simp
  next
    case (Inr el)
    from after_run_Inr[OF this, of self r "store w"] AfterRun assms show ?thesis
      by (simp add: list_append_def alloc_dict_def)
  qed
qed

lemma run_frame:
  assumes "records_attr self \<noteq> s"
  shows "list_objs (store (run self cs w)) s = list_objs (store w) s \<and>
         (\<forall>a < next_addr (store w). dict_objs (store (run self cs w)) a = dict_objs (store w) a) \<and>
         next_addr (store w) \<le> next_addr (store (run self cs w))"
proof (induction cs arbitrary: w)
  case Nil
  show ?case by simp
next
  case (Cons c cs)
  from step_frame[OF assms, of c w] Cons.IH[of "step self c w"]
  show ?case by auto
qed

lemma snapshot_facts:
  assumes "heap_ok (store w)" and "owns self (store w)" and "snapshot self w = (s, w1)"
  shows "s = next_addr (store w)"
    and "records_attr self \<noteq> s"
    and "contexts w1 = contexts w"
    and "next_addr (store w1) = Suc s"
    and "dict_objs (store w1) = dict_objs (store w)"
    and "list_objs (store w1) = (list_objs (store w))(s \<mapsto> list_at (store w) (records_attr self))"
    and "\<And>x. x \<in> set (list_at (store w) (records_attr self)) \<Longrightarrow> x < s"
proof -
  from assms(3) show s: "s = next_addr (store w)"
    by (auto simp: snapshot_def records_def alloc_list_def)
  from owns_bound[OF assms(1,2)] s show "records_attr self \<noteq> s" by simp
  from assms(3) show "contexts w1 = contexts w"
    by (auto simp: snapshot_def records_def alloc_list_def)
  from assms(3) show "next_addr (store w1) = Suc s"
    by (auto simp: snapshot_def records_def alloc_list_def)
  from assms(3) show "dict_objs (store w1) = dict_objs (store w)"
    by (auto simp: snapshot_def records_def alloc_list_def)
  from assms(3) show "list_objs (store w1) = (list_objs (store w))(s \<mapsto> list_at (store w) (records_attr self))"
    by (auto simp: snapshot_def records_def alloc_list_def)
  show "\<And>x. x \<in> set (list_at (store w) (records_attr self)) \<Longrightarrow> x < s"
    using list_at_bound[OF assms(1)] s by simp
qed

lemma snapshot_unchanged:
  assumes "heap_ok (store w)" and "owns self (store w)" and "snapshot self w = (s, w1)"
  shows "view (store (run self cs w1)) s = log_of self (store w)"
proof -
  note f = snapshot_facts[OF assms]
  let ?H = "store (run self cs w1)"
  let ?base = "list_at (store w) (records_attr self)"
  from run_frame[OF f(2), of cs w1]
  have l: "list_objs ?H s = list_objs (store w1) s"
    and d: "\<And>a. a < next_addr (store w1) \<Longrightarrow> dict_objs ?H a = dict_objs (store w1) a"
    by blast+
  have "list_at ?H s = ?base"
    using l f(6) by (simp add: list_at_def)
  moreover have "dict_at ?H x = dict_at (store w) x" if "x \<in> set ?base" for x
  proof -
    from f(7)[OF that] have "x < next_addr (store w1)" using f(4) by simp
    from d[OF this] show ?thesis using f(5) by (simp add: dict_at_def)
  qed
  ultimately show ?thesis
    by (simp add: view_def log_of_def)
qed

lemma simD:
  assumes "sim self s base wm wp"
  shows "contexts wm = contexts wp"
    and "next_addr (store wm) = next_addr (store wp)"
    and "s < next_addr (store wp)"
    and "\<And>l. l \<noteq> s \<Longrightarrow> list_objs (store wm) l = list_objs (store wp) l"
    and "\<And>a. s < a \<Longrightarrow> dict_objs (store wm) a = dict_objs (store wp) a"
    and "\<And>x. x \<in> set (list_at (store wm) s) \<Longrightarrow> x < s"
    and "\<exists>ys. list_at (store wp) (records_attr self) = base @ ys \<and> (\<forall>y \<in> set ys. s < y)"
  using assms unfolding sim_def by blast+

lemma simI:
  assumes "contexts wm = contexts wp"
    and "next_addr (store wm) = next_addr (store wp)"
    and "s < next_addr (store wp)"
    and "\<And>l. l \<noteq> s \<Longrightarrow> list_objs (store wm) l = list_objs (store wp) l"
    and "\<And>a. s < a \<Longrightarrow> dict_objs (store wm) a = dict_objs (store wp) a"
    and "\<And>x. x \<in> set (list_at (store wm) s) \<Longrightarrow> x < s"
    and "\<exists>ys. list_at (store wp) (records_attr self) = base @ ys \<and> (\<forall>y \<in> set ys. s < y)"
  shows "sim self s base wm wp"
  using assms unfolding sim_def by blast

lemma sim_init:
  assumes "heap_ok (store w)" and "owns self (store w)" and "snapshot self w = (s, w1)"
  shows "sim self s (list_at (store w) (records_attr self)) w1 w1"
proof (rule simI)
  note f = snapshot_facts[OF assms]
  show "s < next_addr (store w1)" using f(4) by simp
  show "\<And>x. x \<in> set (list_at (store w1) s) \<Longrightarrow> x < s"
    using f(6,7) by (simp add: list_at_def)
  have "list_at (store w1) (records_attr self) = list_at (store w) (records_attr self)"
    using f(2,6) by (simp add: list_at_def)
  then show "\<exists>ys. list_at (store w1) (records_attr self) = list_at (store w) (records_attr self) @ ys \<and>
       (\<forall>y\<in>set ys. s < y)"
    by simp
qed simp_all

lemma sim_mutate:
  assumes sm: "sim self s base wm wp" and ok: "mutation_ok s m"
  shows "sim self s base (wm\<lparr>store := mutate s m (store wm)\<rparr>) wp"
proof (cases m)
  case (ListSet xs)
  show ?thesis
  proof (rule simI)
    show "\<And>x. x \<in> set (list_at (store (wm\<lparr>store := mutate s m (store wm)\<rparr>)) s) \<Longrightarrow> x < s"
      using ok ListSet by (simp add: list_at_def)
  qed (use simD[OF sm] ListSet in simp_all)
next
  case (ItemSet j k v)
  show ?thesis
  proof (cases "j < length (list_at (store wm) s)")
    case True
    then have b: "list_at (store wm) s ! j < s"
      using simD(6)[OF sm] by simp
    show ?thesis
    proof (rule simI)
      show "\<And>a. s < a \<Longrightarrow> dict_objs (store (wm\<lparr>store := mutate s m (store wm)\<rparr>)) a = dict_objs (store wp) a"
        using b simD(5)[OF sm] ItemSet True by simp
      show "\<And>x. x \<in> set (list_at (store (wm\<lparr>store := mutate s m (store wm)\<rparr>)) s) \<Longrightarrow> x < s"
        using simD(6)[OF sm] ItemSet True by (simp add: list_at_def)
    qed (use simD[OF sm] ItemSet True in simp_all)
  next
    case False
    then have "wm\<lparr>store := mutate s m (store wm)\<rparr> = wm" using ItemSet by simp
    then show ?thesis using sm by simp
  qed
next
  case (ItemDel j k)
  show ?thesis
  proof (cases "j < length (list_at (store wm) s)")
    case True
    then have b: "list_at (store wm) s ! j < s"
      using simD(6)[OF sm] by simp
    show ?thesis
    proof (rule simI)
      show "\<And>a. s < a \<Longrightarrow> dict_objs (store (wm\<lparr>store := mutate s m (store wm)\<rparr>)) a = dict_objs (store wp) a"
        using b simD(5)[OF sm] ItemDel True by simp
      show "\<And>x. x \<in> set (list_at (store (wm\<lparr>store := mutate s m (store wm)\<rparr>)) s) \<Longrightarrow> x < s"
        using simD(6)[OF sm] ItemDel True by (simp add: list_at_def)
    qed (use simD[OF sm] ItemDel True in simp_all)
  next
    case False
    then have "wm\<lparr>store := mutate s m (store wm)\<rparr> = wm" using ItemDel by simp
    then show ?thesis using sm by simp
  qed
qed

lemma sim_step:
  assumes ne: "records_attr self \<noteq> s" and sm: "sim self s base wm wp"
  shows "sim self s base (step self c wm) (step self c wp)"
proof (cases c)
  case (BeforeRun i l t)
  show ?thesis
    by (rule simI) (use simD[OF sm] BeforeRun in simp_all)
next
  case (AfterRun i r t)
  note d = simD[OF sm]
  have cx: "contexts wm i = contexts wp i" using d(1) by simp
  show ?thesis
  proof (cases "elapsed_ms_of (dict_get (metadata (contexts wp i)) ''lineage_start_ns'') (sint t)")
    case (Inl e)
    have m: "step self c wm = wm\<lparr>contexts := (contexts wm)(i := popped (contexts wp i))\<rparr>"
      using after_run_Inl[of "contexts wp i" t e self r "store wm"] Inl AfterRun cx by simp
    have p: "step self c wp = wp\<lparr>contexts := (contexts wp)(i := popped (contexts wp i))\<rparr>"
      using after_run_Inl[of "contexts wp i" t e self r "store wp"] Inl AfterRun by simp
    show ?thesis unfolding m p
      by (rule simI) (use d in simp_all)
  next
    case (Inr el)
    let ?rec = "make_record (popped (contexts wp i)) el r"
    let ?hm = "list_append (records_attr self) (next_addr (store wm)) (snd (alloc_dict ?rec (store wm)))"
    let ?hp = "list_append (records_attr self) (next_addr (store wp)) (snd (alloc_dict ?rec (store wp)))"
    have m: "step self c wm = wm\<lparr>contexts := (contexts wm)(i := popped (contexts wp i)), store := ?hm\<rparr>"
      using after_run_Inr[of "contexts wp i" t el self r "store wm"] Inr AfterRun cx by simp
    have p: "step self c wp = wp\<lparr>contexts := (contexts wp)(i := popped (contexts wp i)), store := ?hp\<rparr>"
      using after_run_Inr[of "contexts wp i" t el self r "store wp"] Inr AfterRun by simp
    have la: "list_at (store wm) (records_attr self) = list_at (store wp) (records_attr self)"
      using d(4)[OF ne] by (simp add: list_at_def)
    from d(7) obtain ys where ys: "list_at (store wp) (records_attr self) = base @ ys"
      "\<forall>y \<in> set ys. s < y" by blast
    show ?thesis unfolding m p
    proof (rule simI)
      show "\<And>l. l \<noteq> s \<Longrightarrow> list_objs (store (wm\<lparr>contexts := (contexts wm)(i := popped (contexts wp i)), store := ?hm\<rparr>)) l
             = list_objs (store (wp\<lparr>contexts := (contexts wp)(i := popped (contexts wp i)), store := ?hp\<rparr>)) l"
        using d(2) d(4) la by (simp add: list_append_def alloc_dict_def list_at_def)
      show "\<And>a. s < a \<Longrightarrow> dict_objs (store (wm\<lparr>contexts := (contexts wm)(i := popped (contexts wp i)), store := ?hm\<rparr>)) a
             = dict_objs (store (wp\<lparr>contexts := (contexts wp)(i := popped (contexts wp i)), store := ?hp\<rparr>)) a"
        using d(2) d(5) by (simp add: list_append_def alloc_dict_def)
      show "\<And>x. x \<in> set (list_at (store (wm\<lparr>contexts := (contexts wm)(i := popped (contexts wp i)), store := ?hm\<rparr>)) s) \<Longrightarrow> x < s"
        using d(6) ne by (simp add: list_append_def alloc_dict_def list_at_def)
      have "list_at ?hp (records_attr self) = base @ (ys @ [next_addr (store wp)])"
        using ys(1) by (simp add: list_append_def alloc_dict_def list_at_def)
      moreover have "\<forall>y \<in> set (ys @ [next_addr (store wp)]). s < y"
        using ys(2) d(3) by simp
      ultimately show "\<exists>ys. list_at (store (wp\<lparr>contexts := (contexts wp)(i := popped (contexts wp i)), store := ?hp\<rparr>))
             (records_attr self) = base @ ys \<and> (\<forall>y\<in>set ys. s < y)"
        by (intro exI[of _ "ys @ [next_addr (store wp)]"]) simp
    qed (use d in \<open>simp_all add: list_append_def alloc_dict_def\<close>)
  qed
qed

lemma sim_run:
  assumes ne: "records_attr self \<noteq> s"
  shows "mutations_ok s es \<Longrightarrow> sim self s base wm wp \<Longrightarrow>
         sim self s base (run_events self s es wm) (run self (calls_of es) wp)"
proof (induction es arbitrary: wm wp)
  case Nil
  then show ?case by simp
next
  case (Cons e es)
  show ?case
  proof (cases e)
    case (Call c)
    from Cons.prems Call have "mutations_ok s es" by simp
    from Cons.IH[OF this sim_step[OF ne Cons.prems(2), of c]] Call show ?thesis by simp
  next
    case (Mutate m)
    from Cons.prems Mutate have ok: "mutation_ok s m" "mutations_ok s es" by simp_all
    from Cons.IH[OF ok(2) sim_mutate[OF Cons.prems(2) ok(1)]] Mutate show ?thesis by simp
  qed
qed

lemma sim_log:
  assumes ne: "records_attr self \<noteq> s" and sm: "sim self s base wm wp"
  shows "list_at (store wm) (records_attr self) = list_at (store wp) (records_attr self)"
    and "drop (length base) (log_of self (store wm)) = drop (length base) (log_of self (store wp))"
proof -
  note d = simD[OF sm]
  show la: "list_at (store wm) (records_attr self) = list_at (store wp) (records_attr self)"
    using d(4)[OF ne] by (simp add: list_at_def)
  from d(7) obtain ys where ys: "list_at (store wp) (records_attr self) = base @ ys"
    "\<forall>y \<in> set ys. s < y" by blast
  have "map (dict_at (store wm)) ys = map (dict_at (store wp)) ys"
    using ys(2) d(5) by (simp add: dict_at_def)
  then show "drop (length base) (log_of self (store wm)) = drop (length base) (log_of self (store wp))"
    using la ys(1) by (simp add: log_of_def view_def)
qed

lemma run_store_ok:
  "heap_ok (store w) \<Longrightarrow> owns self (store w) \<Longrightarrow>
   heap_ok (store (run self cs w)) \<and> owns self (store (run self cs w))"
proof (induction cs arbitrary: w)
  case Nil
  then show ?case by simp
next
  case (Cons c cs)
  from step_store_ok[OF Cons.prems, of c] Cons.IH[of "step self c w"]
  show ?case by simp
qed

lemma one_record_world_ok:
  "heap_ok (store one_record_world)" "owns (fst middleware) (store one_record_world)"
  unfolding one_record_world_def using run_store_ok[OF test_world_ok] by blast+

text \<open>
  C7. The list that \<^verbatim>\<open>records\<close> returns is independent of the log. Whatever calls follow,
  the snapshot shows the log as it was when the snapshot was taken: later appends do
  not appear in it. And whatever a reader does to its snapshot, before, between or
  after later calls, the contexts, the list of the log and every record appended
  after the snapshot are what they are when the reader does nothing.
\<close>

theorem records_snapshot_independent:
  assumes "heap_ok (store w)" and "owns self (store w)" and "snapshot self w = (s, w1)"
  shows "view (store (run self cs w1)) s = log_of self (store w) \<and>
         (mutations_ok s es \<longrightarrow>
            contexts (run_events self s es w1) = contexts (run self (calls_of es) w1) \<and>
            list_at (store (run_events self s es w1)) (records_attr self) =
              list_at (store (run self (calls_of es) w1)) (records_attr self) \<and>
            drop (length (log_of self (store w))) (log_of self (store (run_events self s es w1))) =
              drop (length (log_of self (store w))) (log_of self (store (run self (calls_of es) w1))))"
proof (intro conjI impI)
  show "view (store (run self cs w1)) s = log_of self (store w)"
    by (rule snapshot_unchanged[OF assms])
next
  assume ok: "mutations_ok s es"
  note ne = snapshot_facts(2)[OF assms]
  let ?base = "list_at (store w) (records_attr self)"
  have sm: "sim self s ?base (run_events self s es w1) (run self (calls_of es) w1)"
    by (rule sim_run[OF ne ok sim_init[OF assms]])
  have len: "length (log_of self (store w)) = length ?base"
    by (simp add: log_of_def view_def)
  show "contexts (run_events self s es w1) = contexts (run self (calls_of es) w1)"
    by (rule simD(1)[OF sm])
  show "list_at (store (run_events self s es w1)) (records_attr self) =
              list_at (store (run self (calls_of es) w1)) (records_attr self)"
    by (rule sim_log(1)[OF ne sm])
  show "drop (length (log_of self (store w))) (log_of self (store (run_events self s es w1))) =
              drop (length (log_of self (store w))) (log_of self (store (run self (calls_of es) w1)))"
    unfolding len by (rule sim_log(2)[OF ne sm])
qed

theorem records_snapshot_independent_witness:
  "heap_ok (store one_record_world) \<and> owns (fst middleware) (store one_record_world) \<and>
   mutations_ok (fst (snapshot (fst middleware) one_record_world))
     [Mutate (ItemSet 0 ''lineage_id'' (PStr ''zz'')), Call (BeforeRun 1 ''a1'' 20),
      Mutate (ListSet []), Call (AfterRun 1 (PStr ''y'') 30)] \<and>
   view (store (run (fst middleware) [BeforeRun 1 ''a1'' 20, AfterRun 1 (PStr ''y'') 30]
           (snd (snapshot (fst middleware) one_record_world))))
        (fst (snapshot (fst middleware) one_record_world))
     = log_of (fst middleware) (store one_record_world) \<and>
   drop (length (log_of (fst middleware) (store one_record_world)))
     (log_of (fst middleware) (store (run_events (fst middleware)
        (fst (snapshot (fst middleware) one_record_world))
        [Mutate (ItemSet 0 ''lineage_id'' (PStr ''zz'')), Call (BeforeRun 1 ''a1'' 20),
         Mutate (ListSet []), Call (AfterRun 1 (PStr ''y'') 30)]
        (snd (snapshot (fst middleware) one_record_world))))) =
   drop (length (log_of (fst middleware) (store one_record_world)))
     (log_of (fst middleware) (store (run (fst middleware)
        [BeforeRun 1 ''a1'' 20, AfterRun 1 (PStr ''y'') 30]
        (snd (snapshot (fst middleware) one_record_world)))))"
proof -
  define s where "s = fst (snapshot (fst middleware) one_record_world)"
  define w1 where "w1 = snd (snapshot (fst middleware) one_record_world)"
  define es where "es = [Mutate (ItemSet 0 ''lineage_id'' (PStr ''zz'')), Call (BeforeRun 1 ''a1'' 20),
      Mutate (ListSet []), Call (AfterRun 1 (PStr ''y'') 30)]"
  define cs where "cs = [BeforeRun 1 ''a1'' 20, AfterRun 1 (PStr ''y'') 30]"
  have sn: "snapshot (fst middleware) one_record_world = (s, w1)"
    by (simp add: s_def w1_def)
  have ok: "mutations_ok s es"
    by (simp add: es_def)
  have c: "calls_of es = cs"
    by (simp add: es_def cs_def)
  from records_snapshot_independent[OF one_record_world_ok sn, of cs es] ok c
  have "view (store (run (fst middleware) cs w1)) s = log_of (fst middleware) (store one_record_world) \<and>
    drop (length (log_of (fst middleware) (store one_record_world)))
      (log_of (fst middleware) (store (run_events (fst middleware) s es w1))) =
    drop (length (log_of (fst middleware) (store one_record_world)))
      (log_of (fst middleware) (store (run (fst middleware) cs w1)))"
    by simp
  with one_record_world_ok ok show ?thesis
    unfolding s_def w1_def es_def cs_def by blast
qed

text \<open>
  The copy is shallow: the snapshot and the log share the dictionaries of the records
  that the log held when the snapshot was taken, and a reader who changes one of
  these changes the log's record.
\<close>

lemma snapshot_shares_records:
  "map (\<lambda>r. r ''agent_name'') (log_of (fst middleware) (store one_record_world)) = [Some (PStr ''agent-0'')] \<and>
   map (\<lambda>r. r ''agent_name'') (log_of (fst middleware) (store (run_events (fst middleware)
        (fst (snapshot (fst middleware) one_record_world))
        [Mutate (ItemSet 0 ''agent_name'' (PStr ''zz''))]
        (snd (snapshot (fst middleware) one_record_world))))) = [Some (PStr ''zz'')]"
  by (simp add: log_of_def view_def list_at_def dict_at_def snapshot_def records_def
      one_record_world_def test_world_def middleware_def init_def alloc_list_def empty_heap_def
      FakeMiddlewareContext_def after_run_def before_run_def dict_pop_def dict_get_def
      elapsed_ms_of_def int_true_div_def float_limit_def make_record_def
      alloc_dict_def list_append_def Let_def split_beta)

end
